theory Spec2Isabelle
  imports Complex_Main
begin

section \<open>Strings\<close>

text \<open>
  A Python \<open>str\<close> is a sequence of code points. The model takes \<^typ>\<open>string\<close> for it and
  reads a \<^typ>\<open>char\<close> as the code point of the same number, so the texts of the model are
  the texts over the code points 0 to 255 (ASCII and the Latin-1 supplement, which holds
  every character of the keyword table). On this range \<open>str.lower\<close>, \<open>str.split\<close> and the
  character classes of \<open>re\<close> are the functions below.
\<close>

definition code_point :: "char \<Rightarrow> nat" where
  "code_point c = of_char c"

definition is_upper :: "char \<Rightarrow> bool" where
  \<comment> \<open>the characters \<open>str.lower\<close> changes: A-Z and the accented capitals\<close>
  "is_upper c = (let n = code_point c in
     (65 \<le> n \<and> n \<le> 90) \<or> (192 \<le> n \<and> n \<le> 214) \<or> (216 \<le> n \<and> n \<le> 222))"

definition lower_char :: "char \<Rightarrow> char" where
  "lower_char c = (if is_upper c then char_of (code_point c + 32) else c)"

definition lower :: "string \<Rightarrow> string" where
  \<comment> \<open>\<open>text.lower()\<close>\<close>
  "lower s = map lower_char s"

definition is_space :: "char \<Rightarrow> bool" where
  \<comment> \<open>the separators of \<open>str.split()\<close> without argument\<close>
  "is_space c = (let n = code_point c in
     (9 \<le> n \<and> n \<le> 13) \<or> (28 \<le> n \<and> n \<le> 32) \<or> n = 133 \<or> n = 160)"

definition is_ascii_letter :: "char \<Rightarrow> bool" where
  \<comment> \<open>the class \<open>[a-zA-Z]\<close>\<close>
  "is_ascii_letter c = (let n = code_point c in
     (65 \<le> n \<and> n \<le> 90) \<or> (97 \<le> n \<and> n \<le> 122))"

definition is_word :: "char \<Rightarrow> bool" where
  \<comment> \<open>the class \<open>\w\<close> of a \<open>str\<close> pattern: alphanumeric or underscore\<close>
  "is_word c = (let n = code_point c in
     (48 \<le> n \<and> n \<le> 57) \<or> (65 \<le> n \<and> n \<le> 90) \<or> n = 95 \<or> (97 \<le> n \<and> n \<le> 122) \<or>
     n = 170 \<or> n = 178 \<or> n = 179 \<or> n = 181 \<or> n = 185 \<or> n = 186 \<or>
     (188 \<le> n \<and> n \<le> 190) \<or> (192 \<le> n \<and> n \<le> 214) \<or> (216 \<le> n \<and> n \<le> 246) \<or>
     (248 \<le> n \<and> n \<le> 255))"

fun starts_with :: "string \<Rightarrow> string \<Rightarrow> bool" where
  "starts_with [] s = True"
| "starts_with (p # ps) [] = False"
| "starts_with (p # ps) (c # cs) = (p = c \<and> starts_with ps cs)"

fun contains :: "string \<Rightarrow> string \<Rightarrow> bool" where
  \<comment> \<open>\<open>contains s p\<close> is Python's \<open>p in s\<close>\<close>
  "contains [] p = (p = [])"
| "contains (c # cs) p = (starts_with p (c # cs) \<or> contains cs p)"

fun split_words :: "string \<Rightarrow> string \<Rightarrow> string list" where
  \<comment> \<open>the first argument is the word read so far\<close>
  "split_words w [] = (if w = [] then [] else [w])"
| "split_words w (c # cs) =
     (if is_space c then (if w = [] then split_words [] cs else w # split_words [] cs)
      else split_words (w @ [c]) cs)"

definition split_text :: "string \<Rightarrow> string list" where
  \<comment> \<open>\<open>text.split()\<close>\<close>
  "split_text s = split_words [] s"

section \<open>The keyword table\<close>

record lang_tokens =
  high_importance :: "string list"
  medium_importance :: "string list"
  sexist_indicators :: "string list"

definition en_tokens :: lang_tokens where
  "en_tokens = \<lparr>
     high_importance =
       [''slut'', ''women'', ''girls'', ''fem'', ''wife'', ''scholar'', ''woman'',
        ''onde'', ''ches'', ''teaching'', ''stitute'', ''pregnant'', ''gang'',
        ''men'', ''biggest'', ''bl'', ''girl'', ''bit'', ''pen'', ''financial''],
     medium_importance =
       [''feminist'', ''periods'', ''pro'', ''her'', ''ok'', ''she'', ''boys'',
        ''ti'', ''like'', ''mbo'', ''ips'', ''ts'', ''coverage'', ''really'',
        ''wife'', ''dies'', ''finger'', ''trophy'', ''dressed''],
     sexist_indicators =
       [''kitchen'', ''belong'', ''emotional'', ''weak'', ''stupid'', ''makeup'',
        ''dress'', ''hysteric'', ''irrational'', ''shopping'', ''gossip'',
        ''moody'', ''sensitive'', ''drivers'', ''protect'']\<rparr>"

definition es_tokens :: lang_tokens where
  \<comment> \<open>\<open>CHR 0xF1\<close> is n with tilde, \<open>CHR 0xE9\<close> e with acute, \<open>CHR 0xFA\<close> u with acute\<close>
  "es_tokens = \<lparr>
     high_importance =
       [''nar'', ''masculino'', ''prend'', ''mach'', ''zo'', ''mujeres'', ''mans'',
        ''se'' @ [CHR 0xF1] @ ''or'', ''feminist'', ''mujer'', ''lab'', ''vas'', ''hombre'',
        ''mach'', ''dama'', ''tu'', ''bia'', ''od'', ''sexual'', ''fem''],
     medium_importance =
       [''femenino'', ''doctor'', ''princesa'', ''nen'', ''masculin'', ''mujeres'',
        ''ni'' @ [CHR 0xF1] @ ''a'', ''bella'', ''ton'', ''ni'' @ [CHR 0xF1] @ ''os'', ''ment'',
        ''novi'', ''apa'', ''ones'', ''ios'', ''var'', ''novia'', ''bian'', ''golf''],
     sexist_indicators =
       [''cocina'', ''emocionales'', ''d'' @ [CHR 0xE9] @ ''bil'',
        ''est'' @ [CHR 0xFA] @ ''pida'', ''maquillaje'', ''hist'' @ [CHR 0xE9] @ ''rica'',
        ''irracional'', ''compras'', ''sensibles'', ''conductoras'',
        ''proteger'', ''servir'', ''natural'', ''amargadas'']\<rparr>"

definition important_tokens :: "string \<rightharpoonup> lang_tokens" where
  \<comment> \<open>\<open>self.important_tokens\<close>\<close>
  "important_tokens = map_of [(''en'', en_tokens), (''es'', es_tokens)]"

section \<open>Scores\<close>

text \<open>
  \<open>np.random.uniform(lo, hi)\<close> is \<open>lo + (hi - lo) * u\<close> for a fresh sample \<open>u\<close> of the
  generator, which lies in the half-open interval from 0 to 1. The generator is a
  parameter of the model: \<open>rnd n\<close> is the sample of the \<open>n\<close>-th call since the analysis
  began. Scores are real numbers; the rounding of the floating-point operations is not
  modelled.
\<close>

type_synonym rng = "nat \<Rightarrow> real"

definition valid_rng :: "rng \<Rightarrow> bool" where
  "valid_rng rnd = (\<forall>n. 0 \<le> rnd n \<and> rnd n < 1)"

definition uniform :: "rng \<Rightarrow> nat \<Rightarrow> real \<Rightarrow> real \<Rightarrow> real" where
  "uniform rnd n lo hi = lo + (hi - lo) * rnd n"

definition const_rng :: "real \<Rightarrow> rng" where
  \<comment> \<open>a generator for examples: every sample is \<open>u\<close>\<close>
  "const_rng u n = u"

text \<open>
  \<open>token_scores\<close> is a Python dict: its items are kept in the order in which the keys
  were first inserted, and an assignment to a key that is present replaces the value in
  place. \<open>draws\<close> lists, in call order, the tokens for which a score was drawn and
  assigned; its length is the number of samples consumed so far.
\<close>

record scoring =
  token_scores :: "(string \<times> real) list"
  draws :: "string list"

fun dict_set :: "'k \<Rightarrow> 'v \<Rightarrow> ('k \<times> 'v) list \<Rightarrow> ('k \<times> 'v) list" where
  "dict_set k v [] = [(k, v)]"
| "dict_set k v (kv # kvs) = (if fst kv = k then (k, v) # kvs else kv # dict_set k v kvs)"

definition has_key :: "string \<Rightarrow> scoring \<Rightarrow> bool" where
  \<comment> \<open>\<open>token in token_scores\<close>\<close>
  "has_key token st = (token \<in> set (map fst (token_scores st)))"

definition assign :: "rng \<Rightarrow> real \<Rightarrow> real \<Rightarrow> string \<Rightarrow> scoring \<Rightarrow> scoring" where
  \<comment> \<open>\<open>token_scores[token] = np.random.uniform(lo, hi)\<close>\<close>
  "assign rnd lo hi token st =
     \<lparr>token_scores = dict_set token (uniform rnd (length (draws st)) lo hi) (token_scores st),
      draws = draws st @ [token]\<rparr>"

definition score_high :: "rng \<Rightarrow> string \<Rightarrow> string list \<Rightarrow> scoring \<Rightarrow> scoring" where
  \<comment> \<open>lines 56 to 58\<close>
  "score_high rnd text_lower tokens st =
     fold (\<lambda>token st. if contains text_lower token
                       then assign rnd (8/10) 1 token st else st) tokens st"

definition score_unscored ::
  "rng \<Rightarrow> real \<Rightarrow> real \<Rightarrow> string \<Rightarrow> string list \<Rightarrow> scoring \<Rightarrow> scoring" where
  \<comment> \<open>the loop of lines 61 to 63 and of lines 66 to 68\<close>
  "score_unscored rnd lo hi text_lower tokens st =
     fold (\<lambda>token st. if contains text_lower token \<and> \<not> has_key token st
                       then assign rnd lo hi token st else st) tokens st"

definition score_medium :: "rng \<Rightarrow> string \<Rightarrow> string list \<Rightarrow> scoring \<Rightarrow> scoring" where
  "score_medium rnd text_lower tokens st = score_unscored rnd (5/10) (8/10) text_lower tokens st"

definition score_sexist :: "rng \<Rightarrow> string \<Rightarrow> string list \<Rightarrow> scoring \<Rightarrow> scoring" where
  "score_sexist rnd text_lower tokens st = score_unscored rnd (7/10) (95/100) text_lower tokens st"

definition score_fallback :: "rng \<Rightarrow> string \<Rightarrow> scoring \<Rightarrow> scoring" where
  \<comment> \<open>lines 71 to 76\<close>
  "score_fallback rnd text_lower st =
     (if token_scores st = [] then
        fold (\<lambda>word st.
                let clean_word = filter is_ascii_letter word
                in if length clean_word > 2 then assign rnd (1/10) (4/10) clean_word st else st)
             (take 5 (split_text text_lower)) st
      else st)"

definition score_keywords :: "rng \<Rightarrow> lang_tokens \<Rightarrow> string \<Rightarrow> scoring" where
  \<comment> \<open>the state after the three keyword loops, lines 50 to 68\<close>
  "score_keywords rnd lt text_lower =
     score_sexist rnd text_lower (sexist_indicators lt)
       (score_medium rnd text_lower (medium_importance lt)
          (score_high rnd text_lower (high_importance lt) \<lparr>token_scores = [], draws = []\<rparr>))"

definition score_tokens :: "rng \<Rightarrow> lang_tokens \<Rightarrow> string \<Rightarrow> scoring" where
  \<comment> \<open>the state when line 79 is reached\<close>
  "score_tokens rnd lt text_lower = score_fallback rnd text_lower (score_keywords rnd lt text_lower)"

section \<open>Selection\<close>

fun select_loop ::
  "real \<Rightarrow> real \<Rightarrow> real \<Rightarrow> string list \<Rightarrow> (string \<times> real) list \<Rightarrow> string list" where
  \<comment> \<open>lines 85 to 91; the last argument is what is left of \<open>sorted_tokens\<close>\<close>
  "select_loop threshold total_importance cumulative selected_tokens [] = selected_tokens"
| "select_loop threshold total_importance cumulative selected_tokens ((token, score) # rest) =
     (let cumulative' = cumulative +
            (if total_importance > 0 then score / total_importance else 0);
          selected_tokens' = selected_tokens @ [token]
      in if cumulative' \<ge> threshold \<or> length selected_tokens' \<ge> 10 then selected_tokens'
         else select_loop threshold total_importance cumulative' selected_tokens' rest)"

definition sorted_by_score :: "(string \<times> real) list \<Rightarrow> (string \<times> real) list" where
  \<comment> \<open>\<open>sorted(token_scores.items(), key=lambda x: x[1], reverse=True)\<close>: descending and
      stable\<close>
  "sorted_by_score items = sort_key (\<lambda>x. - snd x) items"

definition select_tokens :: "real \<Rightarrow> (string \<times> real) list \<Rightarrow> string list" where
  \<comment> \<open>lines 79 to 93\<close>
  "select_tokens threshold items =
     (let sorted_tokens = sorted_by_score items;
          total_importance = sum_list (map snd sorted_tokens)
      in select_loop threshold total_importance 0 [] sorted_tokens)"

datatype error =
  KeyError string  \<comment> \<open>the language is not a key of the table: the spec's UnsupportedLanguageError\<close>
| ReError          \<comment> \<open>\<open>re.sub\<close> rejects the replacement template\<close>

definition get_important_tokens :: "rng \<Rightarrow> string \<Rightarrow> string \<Rightarrow> real \<Rightarrow> error + string list" where
  "get_important_tokens rnd text lang threshold =
     (let text_lower = lower text
      in case important_tokens lang of
           None \<Rightarrow> Inl (KeyError lang)
         | Some lang_tokens \<Rightarrow>
             Inr (select_tokens threshold (token_scores (score_tokens rnd lang_tokens text_lower))))"

section \<open>Highlighting\<close>

text \<open>
  \<open>highlight_tokens\<close> calls \<open>re.sub(pattern, replacement, text, flags=re.IGNORECASE)\<close> with
  the pattern \<open>\b\<close>, the escaped token, \<open>\b\<close> and with the replacement \<open>**token**\<close>. What
  \<open>re.sub\<close> does with these two arguments is written out here.

  The replacement is a template: \<open>re\<close> reads a backslash in it as the start of an escape.
  The pattern has no group, so every reference to a group other than the whole match is
  an error, as is an escape made of an ASCII letter that \<open>re\<close> does not know. The two
  exceptions \<open>re\<close> raises there (\<open>re.error\<close>, and \<open>IndexError\<close> for an unknown group name)
  are one value of the model. Group names are read as Python 3.12 reads them: only ASCII
  digits make a number.
\<close>

datatype template_item = Lit char | Whole_match

definition is_oct :: "char \<Rightarrow> bool" where
  "is_oct c = (48 \<le> code_point c \<and> code_point c \<le> 55)"

definition is_digit :: "char \<Rightarrow> bool" where
  "is_digit c = (48 \<le> code_point c \<and> code_point c \<le> 57)"

definition digit_val :: "char \<Rightarrow> nat" where
  "digit_val c = code_point c - 48"

definition escape_code :: "char \<Rightarrow> nat option" where
  \<comment> \<open>the table \<open>ESCAPES\<close> of the template parser\<close>
  "escape_code c =
     (if c = CHR ''a'' then Some 7 else if c = CHR ''b'' then Some 8
      else if c = CHR ''f'' then Some 12 else if c = CHR ''n'' then Some 10
      else if c = CHR ''r'' then Some 13 else if c = CHR ''t'' then Some 9
      else if c = CHR ''v'' then Some 11 else if c = CHR 0x5C then Some 92 else None)"

definition emit :: "template_item \<Rightarrow> template_item list option \<Rightarrow> template_item list option" where
  "emit i r = map_option ((#) i) r"

fun parse_template :: "string \<Rightarrow> template_item list option"
  and parse_group_name :: "bool \<Rightarrow> string \<Rightarrow> template_item list option" where
  "parse_template [] = Some []"
| "parse_template (c # s) =
     (if c \<noteq> CHR 0x5C then emit (Lit c) (parse_template s)
      else case s of
        [] \<Rightarrow> None
      | e # r \<Rightarrow>
          if e = CHR ''g'' then
            (case r of
               [] \<Rightarrow> None
             | b # name \<Rightarrow> if b = CHR ''<'' then parse_group_name False name else None)
          else if e = CHR ''0'' then
            (case r of
               [] \<Rightarrow> emit (Lit (char_of (0::nat))) (parse_template r)
             | d1 # r1 \<Rightarrow>
                 if is_oct d1 then
                   (case r1 of
                      [] \<Rightarrow> emit (Lit (char_of (digit_val d1))) (parse_template r1)
                    | d2 # r2 \<Rightarrow>
                        if is_oct d2
                        then emit (Lit (char_of (8 * digit_val d1 + digit_val d2)))
                               (parse_template r2)
                        else emit (Lit (char_of (digit_val d1))) (parse_template r1))
                 else emit (Lit (char_of (0::nat))) (parse_template r))
          else if is_digit e then
            (case r of
               d1 # d2 # r2 \<Rightarrow>
                 if is_oct e \<and> is_oct d1 \<and> is_oct d2 then
                   (let v = 64 * digit_val e + 8 * digit_val d1 + digit_val d2
                    in if v > 255 then None else emit (Lit (char_of v)) (parse_template r2))
                 else None
             | _ \<Rightarrow> None)
          else
            (case escape_code e of
               Some k \<Rightarrow> emit (Lit (char_of k)) (parse_template r)
             | None \<Rightarrow>
                 if is_ascii_letter e then None
                 else emit (Lit c) (emit (Lit e) (parse_template r))))"
| "parse_group_name seen [] = None"
| "parse_group_name seen (c # s) =
     (if c = CHR ''0'' then parse_group_name True s
      else if c = CHR ''>'' \<and> seen then emit Whole_match (parse_template s)
      else None)"

fun expand :: "template_item list \<Rightarrow> string \<Rightarrow> string" where
  \<comment> \<open>the replacement for the match \<open>m\<close>\<close>
  "expand [] m = []"
| "expand (Lit c # is) m = c # expand is m"
| "expand (Whole_match # is) m = m @ expand is m"

text \<open>
  The scan goes through the text from left to right; \<open>prev_word\<close> says whether the
  character before the current position exists and is a word character. \<open>\b\<close> holds where
  exactly one of the two neighbours is a word character. Under \<open>re.IGNORECASE\<close> two
  characters match when their lowercase forms are equal.
\<close>

definition at_boundary :: "bool \<Rightarrow> string \<Rightarrow> bool" where
  "at_boundary prev_word s = (prev_word \<noteq> (case s of [] \<Rightarrow> False | c # _ \<Rightarrow> is_word c))"

definition ends_word :: "bool \<Rightarrow> string \<Rightarrow> bool" where
  "ends_word prev_word m = (if m = [] then prev_word else is_word (last m))"

definition match_here :: "string \<Rightarrow> bool \<Rightarrow> string \<Rightarrow> bool" where
  "match_here token prev_word s =
     (let n = length token; m = take n s
      in at_boundary prev_word s \<and> n \<le> length s \<and> lower m = lower token \<and>
         at_boundary (ends_word prev_word m) (drop n s))"

function re_sub :: "string \<Rightarrow> template_item list \<Rightarrow> bool \<Rightarrow> string \<Rightarrow> string" where
  "re_sub token repl prev_word s =
     (if match_here token prev_word s then
        expand repl (take (length token) s) @
          (if token = [] then
             (case s of [] \<Rightarrow> [] | c # cs \<Rightarrow> c # re_sub token repl (is_word c) cs)
           else re_sub token repl (is_word (last (take (length token) s)))
                  (drop (length token) s))
      else (case s of [] \<Rightarrow> [] | c # cs \<Rightarrow> c # re_sub token repl (is_word c) cs))"
  by pat_completeness auto
termination
  by (relation "measure (\<lambda>(token, repl, prev_word, s). length s)")
     (auto simp: match_here_def Let_def neq_Nil_conv)

declare re_sub.simps [simp del]

definition sorted_by_length :: "string list \<Rightarrow> string list" where
  \<comment> \<open>\<open>sorted(important_tokens, key=len, reverse=True)\<close>: longest first and stable\<close>
  "sorted_by_length tokens = sort_key (\<lambda>t. - int (length t)) tokens"

fun highlight_loop :: "string \<Rightarrow> string list \<Rightarrow> error + string" where
  \<comment> \<open>lines 102 to 106\<close>
  "highlight_loop highlighted_text [] = Inr highlighted_text"
| "highlight_loop highlighted_text (token # rest) =
     (case parse_template (''**'' @ token @ ''**'') of
        None \<Rightarrow> Inl ReError
      | Some repl \<Rightarrow> highlight_loop (re_sub token repl False highlighted_text) rest)"

definition highlight_tokens :: "string \<Rightarrow> string list \<Rightarrow> error + string" where
  "highlight_tokens text tokens = highlight_loop text (sorted_by_length tokens)"

section \<open>The analysis\<close>

record analysis =
  original_text :: string
  important_tokens' :: "string list"
  highlighted_text :: string
  language :: string
  num_important_tokens :: nat

definition analyze_tweet :: "rng \<Rightarrow> string \<Rightarrow> string \<Rightarrow> error + analysis" where
  "analyze_tweet rnd text lang =
     (case get_important_tokens rnd text lang (95/100) of
        Inl e \<Rightarrow> Inl e
      | Inr tokens \<Rightarrow>
          (case highlight_tokens text tokens of
             Inl e \<Rightarrow> Inl e
           | Inr highlighted \<Rightarrow>
               Inr \<lparr>original_text = text, important_tokens' = tokens,
                    highlighted_text = highlighted, language = lang,
                    num_important_tokens = length tokens\<rparr>))"

section \<open>Highlighting, word by word\<close>

text \<open>
  A second account of what highlighting does to a text, stated on the words of the text
  as the spec does and not taken from the code: the text is cut into its maximal runs of word characters and the
  single characters between them; a run that equals the token up to case is replaced by
  the token between two pairs of asterisks, everything else is kept. The replacement
  spells the token as the token list does. \<open>word_token\<close> holds of the tokens this
  account is for: not empty and made of word characters, as are all the tokens that
  \<open>get_important_tokens\<close> returns.
\<close>

fun spec_word_runs :: "string \<Rightarrow> string \<Rightarrow> string list" where
  "spec_word_runs w [] = (if w = [] then [] else [w])"
| "spec_word_runs w (c # cs) =
     (if is_word c then spec_word_runs (w @ [c]) cs
      else (if w = [] then [] else [w]) @ [c] # spec_word_runs [] cs)"

definition spec_mark_run :: "string \<Rightarrow> string \<Rightarrow> string" where
  "spec_mark_run token run = (if lower run = lower token then ''**'' @ token @ ''**'' else run)"

definition spec_mark_token :: "string \<Rightarrow> string \<Rightarrow> string" where
  "spec_mark_token token text = concat (map (spec_mark_run token) (spec_word_runs [] text))"

definition word_token :: "string \<Rightarrow> bool" where
  "word_token token = (token \<noteq> [] \<and> list_all is_word token)"

section \<open>Auxiliary notions\<close>

text \<open>
  Two invariants of the scoring loops, used in the proofs: the tokens drawn for are the
  keys of \<open>token_scores\<close>; and every score lies in the unit interval, a score of a token
  of the set \<open>H\<close> being at least 0.8.
\<close>

definition in_step :: "scoring \<Rightarrow> bool" where
  "in_step st = (set (draws st) = fst ` set (token_scores st))"

definition scores_in_range :: "string set \<Rightarrow> scoring \<Rightarrow> bool" where
  "scores_in_range H st =
     (\<forall>(t, s) \<in> set (token_scores st). 0 \<le> s \<and> s \<le> 1 \<and> (t \<in> H \<longrightarrow> 8/10 \<le> s))"

section \<open>Facts about the model\<close>

lemma table_en: "important_tokens ''en'' = Some en_tokens"
  by (simp add: important_tokens_def)

lemma table_es: "important_tokens ''es'' = Some es_tokens"
  by (simp add: important_tokens_def)

lemma table_keys: "dom important_tokens = {''en'', ''es''}"
  by (auto simp: important_tokens_def split: if_splits)

lemma uniform_range:
  "0 \<le> (u::real) \<Longrightarrow> u < 1 \<Longrightarrow> lo \<le> hi \<Longrightarrow>
   lo \<le> lo + (hi - lo) * u \<and> lo + (hi - lo) * u \<le> hi"
proof -
  assume a: "0 \<le> u" "u < 1" "lo \<le> hi"
  have "0 \<le> (hi - lo) * u"
    using a by simp
  moreover have "(hi - lo) * u \<le> (hi - lo) * 1"
    using a by (intro mult_left_mono) auto
  ultimately show ?thesis
    by simp
qed

lemma uniform_bounds:
  "valid_rng rnd \<Longrightarrow> lo \<le> hi \<Longrightarrow> lo \<le> uniform rnd n lo hi \<and> uniform rnd n lo hi \<le> hi"
  unfolding uniform_def valid_rng_def using uniform_range by blast

lemma valid_const_rng: "0 \<le> u \<Longrightarrow> u < 1 \<Longrightarrow> valid_rng (const_rng u)"
  by (simp add: valid_rng_def const_rng_def)

subsection \<open>Evaluating the kitchen scenario\<close>

lemma kitchen_lower:
  "lower ''You should be in the kitchen, not working'' =
     ''you should be in the kitchen, not working''"
  by code_simp

lemma kitchen_scores:
  "score_tokens rnd en_tokens ''you should be in the kitchen, not working'' =
     \<lparr>token_scores = [(''kitchen'', uniform rnd 0 (7/10) (95/100))], draws = [''kitchen'']\<rparr>"
  by (simp add: score_tokens_def score_keywords_def score_high_def score_medium_def
      score_sexist_def score_unscored_def score_fallback_def en_tokens_def has_key_def
      assign_def)

lemma select_single: "select_tokens th [(t, s)] = [t]"
  by (simp add: select_tokens_def sorted_by_score_def Let_def)

lemma kitchen_run:
  "get_important_tokens rnd ''You should be in the kitchen, not working'' ''en'' th =
     Inr [''kitchen'']"
  by (simp add: get_important_tokens_def table_en kitchen_lower kitchen_scores select_single)

lemma kitchen_highlight:
  "highlight_tokens ''You should be in the kitchen, not working'' [''kitchen''] =
     Inr ''You should be in the **kitchen**, not working''"
  by code_simp

section \<open>Unsupported languages\<close>

text \<open>
  Claim C1. For every text, \<open>get_important_tokens\<close> and \<open>analyze_tweet\<close> called with a
  language that is not a key of the keyword table (anything but \<open>en\<close> and \<open>es\<close>, see
  \<open>table_keys\<close>) end in the error of the failed table lookup, and the error is the result
  of the call: nothing catches it.
\<close>

theorem unsupported_language_raises:
  "lang \<notin> dom important_tokens \<Longrightarrow>
   get_important_tokens rnd text lang threshold = Inl (KeyError lang) \<and>
   analyze_tweet rnd text lang = Inl (KeyError lang)"
  by (auto simp: get_important_tokens_def analyze_tweet_def)

theorem unsupported_language_raises_witness:
  "''fr'' \<notin> dom important_tokens \<and>
   get_important_tokens (const_rng 0) ''She is a doctor'' ''fr'' (95/100) = Inl (KeyError ''fr'') \<and>
   analyze_tweet (const_rng 0) ''She is a doctor'' ''fr'' = Inl (KeyError ''fr'')"
proof -
  have h: "''fr'' \<notin> dom important_tokens"
    by (simp add: important_tokens_def)
  show ?thesis
    using h unsupported_language_raises [OF h, of "const_rng 0" "''She is a doctor''" "95/100"]
    by simp
qed

section \<open>The cap of ten tokens\<close>

lemma select_loop_length:
  "length sel < 10 \<Longrightarrow> length (select_loop th tot cum sel xs) \<le> 10"
  by (induction xs arbitrary: cum sel) (auto simp: Let_def)

lemma select_tokens_length: "length (select_tokens th items) \<le> 10"
  by (simp add: select_tokens_def Let_def select_loop_length)

text \<open>
  Claim C4. Whatever the text, the language and the threshold, a call of
  \<open>get_important_tokens\<close> that returns gives at most 10 tokens, and so does the field
  \<open>important_tokens\<close> of the result of \<open>analyze_tweet\<close>.
\<close>

theorem at_most_ten_tokens:
  "(get_important_tokens rnd text lang threshold = Inr tokens \<longrightarrow> length tokens \<le> 10) \<and>
   (analyze_tweet rnd text lang = Inr r \<longrightarrow>
      length (important_tokens' r) \<le> 10 \<and> num_important_tokens r \<le> 10)"
  by (auto simp: get_important_tokens_def analyze_tweet_def select_tokens_length
      split: option.splits sum.splits)

theorem at_most_ten_tokens_witness:
  "get_important_tokens (const_rng 0) ''You should be in the kitchen, not working'' ''en'' (95/100)
     = Inr [''kitchen''] \<and> length [''kitchen''] \<le> (10::nat) \<and>
   analyze_tweet (const_rng 0) ''You should be in the kitchen, not working'' ''en'' =
     Inr \<lparr>original_text = ''You should be in the kitchen, not working'',
          important_tokens' = [''kitchen''],
          highlighted_text = ''You should be in the **kitchen**, not working'',
          language = ''en'', num_important_tokens = 1\<rparr> \<and>
   num_important_tokens \<lparr>original_text = ''You should be in the kitchen, not working'',
          important_tokens' = [''kitchen''],
          highlighted_text = ''You should be in the **kitchen**, not working'',
          language = ''en'', num_important_tokens = 1\<rparr> \<le> 10"
  using at_most_ten_tokens [of "const_rng 0" "''You should be in the kitchen, not working''"
      "''en''" "95/100" "[''kitchen'']"
      "\<lparr>original_text = ''You should be in the kitchen, not working'',
          important_tokens' = [''kitchen''],
          highlighted_text = ''You should be in the **kitchen**, not working'',
          language = ''en'', num_important_tokens = 1\<rparr>"]
  by (simp add: analyze_tweet_def kitchen_run kitchen_highlight)

section \<open>The empty text\<close>

lemma score_keywords_empty:
  "score_keywords rnd en_tokens [] = \<lparr>token_scores = [], draws = []\<rparr>"
  by (simp add: score_keywords_def score_high_def score_medium_def score_sexist_def
      score_unscored_def en_tokens_def)

lemma score_fallback_empty:
  "score_fallback rnd [] \<lparr>token_scores = [], draws = []\<rparr> = \<lparr>token_scores = [], draws = []\<rparr>"
  by (simp add: score_fallback_def split_text_def)

lemma select_tokens_empty: "select_tokens th [] = []"
  by (simp add: select_tokens_def sorted_by_score_def)

text \<open>
  Claim C8. \<open>get_important_tokens\<close> on the empty text and \<open>en\<close> returns, without error, the
  empty list, for every generator and threshold: no keyword occurs in the empty text and
  the fallback finds no word.
\<close>

theorem empty_text_selects_nothing:
  "get_important_tokens rnd [] ''en'' threshold = Inr []"
  by (simp add: get_important_tokens_def table_en lower_def score_tokens_def
      score_keywords_empty score_fallback_empty select_tokens_empty)

section \<open>The kitchen scenario\<close>

text \<open>
  Claim C6. For every run, that is for every generator whose samples lie in the unit
  interval, \<open>get_important_tokens\<close> on the text \<open>You should be in the kitchen, not working\<close>
  and \<open>en\<close> returns a list that holds \<open>kitchen\<close>, an entry of \<open>sexist_indicators\<close>, and
  the score given to \<open>kitchen\<close> lies between 0.7 and 0.95.
\<close>

theorem kitchen_selected:
  "valid_rng rnd \<Longrightarrow>
   ''kitchen'' \<in> set (sexist_indicators en_tokens) \<and>
   get_important_tokens rnd ''You should be in the kitchen, not working'' ''en'' (95/100)
     = Inr [''kitchen''] \<and>
   (\<exists>score. token_scores (score_tokens rnd en_tokens
                (lower ''You should be in the kitchen, not working'')) = [(''kitchen'', score)] \<and>
            7/10 \<le> score \<and> score \<le> 95/100)"
proof -
  assume v: "valid_rng rnd"
  have "7/10 \<le> uniform rnd 0 (7/10) (95/100) \<and> uniform rnd 0 (7/10) (95/100) \<le> 95/100"
    using uniform_bounds [OF v, of "7/10" "95/100" 0] by simp
  moreover have "''kitchen'' \<in> set (sexist_indicators en_tokens)"
    by (simp add: en_tokens_def)
  ultimately show ?thesis
    by (simp add: kitchen_run kitchen_lower kitchen_scores)
qed

theorem kitchen_selected_witness:
  "valid_rng (const_rng (1/2)) \<and>
   get_important_tokens (const_rng (1/2)) ''You should be in the kitchen, not working'' ''en''
     (95/100) = Inr [''kitchen''] \<and>
   token_scores (score_tokens (const_rng (1/2)) en_tokens
     (lower ''You should be in the kitchen, not working'')) = [(''kitchen'', 33/40)] \<and>
   (7/10 :: real) \<le> 33/40 \<and> (33/40 :: real) \<le> 95/100"
proof -
  have v: "valid_rng (const_rng (1/2))"
    by (simp add: valid_const_rng)
  show ?thesis
    using v kitchen_selected [OF v]
    by (simp add: kitchen_lower kitchen_scores uniform_def const_rng_def)
qed

section \<open>The dict of scores\<close>

lemma dict_set_keys: "fst ` set (dict_set k v kvs) = insert k (fst ` set kvs)"
  by (induction kvs) auto

lemma dict_set_subset: "set (dict_set k v kvs) \<subseteq> insert (k, v) (set kvs)"
  by (induction kvs) auto

lemma dict_set_distinct:
  "distinct (map fst kvs) \<Longrightarrow> distinct (map fst (dict_set k v kvs))"
proof (induction kvs)
  case Nil
  then show ?case by simp
next
  case (Cons kv kvs)
  have "fst ` set (dict_set k v kvs) = insert k (fst ` set kvs)"
    by (rule dict_set_keys)
  with Cons show ?case
    by (cases kv) auto
qed

lemma assign_keys:
  "fst ` set (token_scores (assign rnd lo hi token st)) = insert token (fst ` set (token_scores st))"
  by (simp add: assign_def dict_set_keys)

lemma assign_draws: "draws (assign rnd lo hi token st) = draws st @ [token]"
  by (simp add: assign_def)

lemma assign_distinct:
  "distinct (map fst (token_scores st)) \<Longrightarrow>
   distinct (map fst (token_scores (assign rnd lo hi token st)))"
  by (simp add: assign_def dict_set_distinct)

lemma score_high_keys:
  "fst ` set (token_scores (score_high rnd tlow tokens st)) =
     fst ` set (token_scores st) \<union> {t \<in> set tokens. contains tlow t}"
  unfolding score_high_def
  by (induction tokens arbitrary: st) (auto simp: assign_keys)

lemma score_unscored_keys:
  "fst ` set (token_scores (score_unscored rnd lo hi tlow tokens st)) =
     fst ` set (token_scores st) \<union> {t \<in> set tokens. contains tlow t}"
  unfolding score_unscored_def
  by (induction tokens arbitrary: st) (auto simp: assign_keys has_key_def)

lemma fold_clean_keys:
  "fst ` set (token_scores (fold (\<lambda>word st.
        let clean_word = filter is_ascii_letter word
        in if length clean_word > 2 then assign rnd lo hi clean_word st else st) ws st))
     \<subseteq> fst ` set (token_scores st) \<union> filter is_ascii_letter ` set ws"
proof (induction ws arbitrary: st)
  case Nil
  then show ?case by simp
next
  case (Cons w ws)
  show ?case
    using Cons.IH [of "assign rnd lo hi (filter is_ascii_letter w) st"] Cons.IH [of st]
    by (auto simp: Let_def assign_keys)
qed

lemma score_fallback_keys:
  "fst ` set (token_scores (score_fallback rnd tlow st)) \<subseteq>
     fst ` set (token_scores st) \<union> filter is_ascii_letter ` set (split_text tlow)"
proof (cases "token_scores st = []")
  case True
  have "filter is_ascii_letter ` set (take 5 (split_text tlow)) \<subseteq>
          filter is_ascii_letter ` set (split_text tlow)"
    by (intro image_mono set_take_subset)
  moreover have "fst ` set (token_scores (score_fallback rnd tlow st)) \<subseteq>
      fst ` set (token_scores st) \<union> filter is_ascii_letter ` set (take 5 (split_text tlow))"
    using fold_clean_keys [of rnd "1/10" "4/10" "take 5 (split_text tlow)" st]
    by (simp add: score_fallback_def True)
  ultimately show ?thesis
    by blast
next
  case False
  then show ?thesis
    by (simp add: score_fallback_def)
qed

lemma score_keywords_keys:
  "fst ` set (token_scores (score_keywords rnd lt tlow)) =
     {t \<in> set (high_importance lt) \<union> set (medium_importance lt) \<union> set (sexist_indicators lt).
        contains tlow t}"
  by (auto simp: score_keywords_def score_sexist_def score_medium_def score_unscored_keys
      score_high_keys)

lemma score_tokens_keys:
  "fst ` set (token_scores (score_tokens rnd lt tlow)) \<subseteq>
     set (high_importance lt) \<union> set (medium_importance lt) \<union> set (sexist_indicators lt) \<union>
     filter is_ascii_letter ` set (split_text tlow)"
  using score_fallback_keys [of rnd tlow "score_keywords rnd lt tlow"]
  by (auto simp: score_tokens_def score_keywords_keys)

lemma score_high_distinct:
  "distinct (map fst (token_scores st)) \<Longrightarrow>
   distinct (map fst (token_scores (score_high rnd tlow tokens st)))"
  unfolding score_high_def
  by (induction tokens arbitrary: st) (auto simp: assign_distinct)

lemma score_unscored_distinct:
  "distinct (map fst (token_scores st)) \<Longrightarrow>
   distinct (map fst (token_scores (score_unscored rnd lo hi tlow tokens st)))"
  unfolding score_unscored_def
  by (induction tokens arbitrary: st) (auto simp: assign_distinct)

lemma score_fallback_distinct:
  "distinct (map fst (token_scores st)) \<Longrightarrow>
   distinct (map fst (token_scores (score_fallback rnd tlow st)))"
proof -
  have "distinct (map fst (token_scores st)) \<Longrightarrow>
     distinct (map fst (token_scores (fold (\<lambda>word st.
        let clean_word = filter is_ascii_letter word
        in if length clean_word > 2 then assign rnd lo hi clean_word st else st) ws st)))"
    for ws lo hi st
    by (induction ws arbitrary: st) (auto simp: assign_distinct Let_def)
  then show "distinct (map fst (token_scores st)) \<Longrightarrow> ?thesis"
    by (simp add: score_fallback_def)
qed

lemma score_tokens_distinct: "distinct (map fst (token_scores (score_tokens rnd lt tlow)))"
  by (simp add: score_tokens_def score_keywords_def score_medium_def score_sexist_def
      score_fallback_distinct score_unscored_distinct score_high_distinct)

section \<open>The selection loop\<close>

lemma select_loop_take:
  "\<exists>k. select_loop th tot cum sel xs = sel @ map fst (take k xs)"
proof (induction xs arbitrary: cum sel)
  case Nil
  then show ?case by simp
next
  case (Cons x xs)
  obtain t s where x: "x = (t, s)"
    by (cases x)
  let ?cum = "cum + (if tot > 0 then s / tot else 0)"
  show ?case
  proof (cases "?cum \<ge> th \<or> length (sel @ [t]) \<ge> 10")
    case True
    then have "select_loop th tot cum sel (x # xs) = sel @ map fst (take 1 (x # xs))"
      by (simp add: x Let_def)
    then show ?thesis by blast
  next
    case False
    obtain k where "select_loop th tot ?cum (sel @ [t]) xs = (sel @ [t]) @ map fst (take k xs)"
      using Cons.IH by blast
    with False have "select_loop th tot cum sel (x # xs) = sel @ map fst (take (Suc k) (x # xs))"
      by (simp add: x Let_def)
    then show ?thesis by blast
  qed
qed

lemma select_loop_Cons:
  "\<exists>ys. select_loop th tot cum sel ((t, s) # xs) = sel @ t # ys"
proof -
  let ?cum = "cum + (if tot > 0 then s / tot else 0)"
  obtain k where "select_loop th tot ?cum (sel @ [t]) xs = (sel @ [t]) @ map fst (take k xs)"
    using select_loop_take by blast
  then show ?thesis
    by (simp add: Let_def)
qed

lemma select_tokens_take:
  "\<exists>k. select_tokens th items = map fst (take k (sorted_by_score items))"
  using select_loop_take [of th _ 0 "[]" "sorted_by_score items"]
  by (simp add: select_tokens_def Let_def)

lemma select_tokens_subset: "set (select_tokens th items) \<subseteq> fst ` set items"
proof -
  obtain k where "select_tokens th items = map fst (take k (sorted_by_score items))"
    using select_tokens_take by blast
  moreover have "set (take k (sorted_by_score items)) \<subseteq> set items"
    using set_take_subset [of k "sorted_by_score items"] by (simp add: sorted_by_score_def)
  ultimately show ?thesis by auto
qed

lemma sorted_by_score_distinct:
  "distinct (map fst items) \<Longrightarrow> distinct (map fst (sorted_by_score items))"
  by (simp add: distinct_map sorted_by_score_def)

lemma select_tokens_distinct:
  "distinct (map fst items) \<Longrightarrow> distinct (select_tokens th items)"
proof -
  assume d: "distinct (map fst items)"
  obtain k where k: "select_tokens th items = map fst (take k (sorted_by_score items))"
    using select_tokens_take by blast
  have "distinct (take k (map fst (sorted_by_score items)))"
    using sorted_by_score_distinct [OF d] by (rule distinct_take)
  then show ?thesis
    by (simp add: k take_map)
qed

lemma select_tokens_first:
  assumes "items \<noteq> []"
  shows "\<exists>t s rest. select_tokens th items = t # rest \<and> (t, s) \<in> set items \<and>
           (\<forall>(t', s') \<in> set items. s' \<le> s)"
proof -
  have "length (sorted_by_score items) = length items"
    by (simp add: sorted_by_score_def)
  then have "sorted_by_score items \<noteq> []"
    using assms by auto
  then obtain t s zs where ys: "sorted_by_score items = (t, s) # zs"
    by (cases "sorted_by_score items") auto
  have "sorted (map (\<lambda>x. - snd x) (sorted_by_score items))"
    by (simp add: sorted_by_score_def)
  then have "\<forall>y \<in> set zs. snd y \<le> s"
    by (simp add: ys)
  moreover have set: "set items = insert (t, s) (set zs)"
    using set_sort [of "\<lambda>x. - snd x" items] by (simp add: sorted_by_score_def [symmetric] ys)
  ultimately have max: "\<forall>(t', s') \<in> set items. s' \<le> s"
    by auto
  obtain rest where "select_tokens th items = t # rest"
    using select_loop_Cons [of th _ 0 "[]" t s zs] by (auto simp: select_tokens_def Let_def ys)
  with max set show ?thesis
    by blast
qed

text \<open>
  Claim C10. For every text, supported language and threshold (also one that is not
  positive, or above 1): when at least one token has a score, \<open>get_important_tokens\<close>
  returns a list that is not empty, and its first element is a token whose score is
  maximal among the scores given.
\<close>

theorem first_token_maximal:
  "important_tokens lang = Some lt \<Longrightarrow>
   token_scores (score_tokens rnd lt (lower text)) \<noteq> [] \<Longrightarrow>
   \<exists>token score rest.
     get_important_tokens rnd text lang threshold = Inr (token # rest) \<and>
     (token, score) \<in> set (token_scores (score_tokens rnd lt (lower text))) \<and>
     (\<forall>(t, s) \<in> set (token_scores (score_tokens rnd lt (lower text))). s \<le> score)"
  using select_tokens_first [of "token_scores (score_tokens rnd lt (lower text))" threshold]
  by (simp add: get_important_tokens_def)

theorem first_token_maximal_witness:
  "important_tokens ''en'' = Some en_tokens \<and>
   token_scores (score_tokens (const_rng (1/2)) en_tokens
      (lower ''You should be in the kitchen, not working'')) = [(''kitchen'', 33/40)] \<and>
   [(''kitchen'', 33/40 :: real)] \<noteq> [] \<and>
   get_important_tokens (const_rng (1/2)) ''You should be in the kitchen, not working'' ''en''
     (95/100) = Inr [''kitchen'']"
proof -
  have s: "token_scores (score_tokens (const_rng (1/2)) en_tokens
      (lower ''You should be in the kitchen, not working'')) = [(''kitchen'', 33/40)]"
    by (simp add: kitchen_lower kitchen_scores uniform_def const_rng_def)
  then have h: "token_scores (score_tokens (const_rng (1/2)) en_tokens
      (lower ''You should be in the kitchen, not working'')) \<noteq> []"
    by simp
  show ?thesis
    using table_en s first_token_maximal [OF table_en h, of "95/100"]
    by (simp add: kitchen_run)
qed

section \<open>Returned tokens are lowercase\<close>

lemma lower_char_not_upper: "\<not> is_upper (lower_char c)"
  by (auto simp: is_upper_def lower_char_def code_point_def Let_def)

lemma split_words_chars: "w' \<in> set (split_words w s) \<Longrightarrow> set w' \<subseteq> set w \<union> set s"
  by (induction s arbitrary: w) (fastforce split: if_splits)+

lemma split_text_chars: "w \<in> set (split_text s) \<Longrightarrow> set w \<subseteq> set s"
  using split_words_chars [of w "[]" s] by (simp add: split_text_def)

lemma en_tokens_no_upper:
  "list_all (list_all (\<lambda>c. \<not> is_upper c))
     (high_importance en_tokens @ medium_importance en_tokens @ sexist_indicators en_tokens)"
  by code_simp

lemma es_tokens_no_upper:
  "list_all (list_all (\<lambda>c. \<not> is_upper c))
     (high_importance es_tokens @ medium_importance es_tokens @ sexist_indicators es_tokens)"
  by code_simp

lemma table_no_upper:
  assumes "important_tokens lang = Some lt"
    and "t \<in> set (high_importance lt) \<union> set (medium_importance lt) \<union> set (sexist_indicators lt)"
    and "c \<in> set t"
  shows "\<not> is_upper c"
proof -
  have "lt = en_tokens \<or> lt = es_tokens"
    using assms(1) by (auto simp: important_tokens_def split: if_splits)
  then have "list_all (list_all (\<lambda>c. \<not> is_upper c))
     (high_importance lt @ medium_importance lt @ sexist_indicators lt)"
    using en_tokens_no_upper es_tokens_no_upper by blast
  then show ?thesis
    using assms(2,3) by (auto simp: list_all_iff)
qed

text \<open>
  Claim C9. For every text, supported language and threshold, no string that
  \<open>get_important_tokens\<close> returns holds an uppercase character: a matched keyword is
  returned as the table spells it, and a fallback token is made of letters of the
  lowercased text.
\<close>

theorem selected_tokens_lowercase:
  "get_important_tokens rnd text lang threshold = Inr tokens \<Longrightarrow>
   \<forall>t \<in> set tokens. \<forall>c \<in> set t. \<not> is_upper c"
proof (intro ballI)
  fix t c
  assume run: "get_important_tokens rnd text lang threshold = Inr tokens"
    and t: "t \<in> set tokens" and c: "c \<in> set t"
  from run obtain lt where lt: "important_tokens lang = Some lt"
    and tokens: "tokens = select_tokens threshold (token_scores (score_tokens rnd lt (lower text)))"
    by (auto simp: get_important_tokens_def split: option.splits)
  have "t \<in> fst ` set (token_scores (score_tokens rnd lt (lower text)))"
    using t tokens select_tokens_subset by blast
  then consider
    (kw) "t \<in> set (high_importance lt) \<union> set (medium_importance lt) \<union> set (sexist_indicators lt)"
    | (fb) "t \<in> filter is_ascii_letter ` set (split_text (lower text))"
    using score_tokens_keys [of rnd lt "lower text"] by blast
  then show "\<not> is_upper c"
  proof cases
    case kw
    then show ?thesis
      using table_no_upper [OF lt _ c] by blast
  next
    case fb
    then obtain w where w: "w \<in> set (split_text (lower text))" and "t = filter is_ascii_letter w"
      by blast
    then have "c \<in> set (lower text)"
      using c split_text_chars [OF w] by auto
    then show ?thesis
      by (auto simp: lower_def lower_char_not_upper)
  qed
qed

theorem selected_tokens_lowercase_witness:
  "get_important_tokens (const_rng 0) ''MEN'' ''en'' (95/100) = Inr [''men''] \<and>
   \<not> is_upper CHR ''m'' \<and> \<not> is_upper CHR ''e'' \<and> \<not> is_upper CHR ''n''"
proof -
  have h: "get_important_tokens (const_rng 0) ''MEN'' ''en'' (95/100) = Inr [''men'']"
    by code_simp
  show ?thesis
    using h selected_tokens_lowercase [OF h] by simp
qed

section \<open>Scoring a token more than once\<close>

text \<open>
  Claim C5 says that each token is scored at most once within a call. The loop over
  \<open>high_importance\<close> has no test for a token that is already scored, and the Spanish
  list holds \<open>mach\<close> twice: for a text that contains it a score is drawn and assigned
  twice, the second replacing the first.
\<close>

theorem token_scored_twice:
  "important_tokens ''es'' = Some es_tokens \<and>
   draws (score_tokens (const_rng 0) es_tokens (lower ''un macho'')) = [''mach'', ''mach'']"
  by code_simp

text \<open>
  The fallback loop has no such test either: a word that comes twice among the first
  five is scored twice.
\<close>

lemma fallback_word_scored_twice:
  "draws (score_tokens (const_rng 0) en_tokens (lower ''the the'')) = [''the'', ''the'']"
  by code_simp

lemma assign_in_step: "in_step st \<Longrightarrow> in_step (assign rnd lo hi token st)"
  by (simp add: in_step_def assign_keys assign_draws)

lemma score_high_in_step: "in_step st \<Longrightarrow> in_step (score_high rnd tlow tokens st)"
  unfolding score_high_def
  by (induction tokens arbitrary: st) (auto simp: assign_in_step)

lemma score_unscored_draws:
  "in_step st \<Longrightarrow>
   \<exists>later. draws (score_unscored rnd lo hi tlow tokens st) = draws st @ later \<and>
     distinct later \<and> set later \<inter> set (draws st) = {} \<and>
     in_step (score_unscored rnd lo hi tlow tokens st)"
proof (induction tokens arbitrary: st)
  case Nil
  then show ?case
    by (simp add: score_unscored_def)
next
  case (Cons token tokens)
  show ?case
  proof (cases "contains tlow token \<and> \<not> has_key token st")
    case True
    let ?st = "assign rnd lo hi token st"
    have step: "score_unscored rnd lo hi tlow (token # tokens) st =
        score_unscored rnd lo hi tlow tokens ?st"
      using True by (simp add: score_unscored_def)
    have fresh: "token \<notin> set (draws st)"
      using True Cons.prems by (simp add: has_key_def in_step_def)
    obtain later where later: "draws (score_unscored rnd lo hi tlow tokens ?st) = draws ?st @ later"
      "distinct later" "set later \<inter> set (draws ?st) = {}"
      "in_step (score_unscored rnd lo hi tlow tokens ?st)"
      using Cons.IH [OF assign_in_step [OF Cons.prems]] by blast
    have "draws (score_unscored rnd lo hi tlow (token # tokens) st) = draws st @ (token # later)"
      by (simp add: step later(1) assign_draws)
    moreover have "distinct (token # later)"
      using later(2,3) by (auto simp: assign_draws)
    moreover have "set (token # later) \<inter> set (draws st) = {}"
      using later(3) fresh by (auto simp: assign_draws)
    ultimately show ?thesis
      using later(4) step by metis
  next
    case False
    then have "score_unscored rnd lo hi tlow (token # tokens) st =
        score_unscored rnd lo hi tlow tokens st"
      by (auto simp: score_unscored_def)
    then show ?thesis
      using Cons.IH [OF Cons.prems] by simp
  qed
qed

lemma score_keywords_draws:
  "\<exists>later. draws (score_keywords rnd lt tlow) =
       draws (score_high rnd tlow (high_importance lt) \<lparr>token_scores = [], draws = []\<rparr>) @ later \<and>
     distinct later \<and>
     set later \<inter>
       set (draws (score_high rnd tlow (high_importance lt) \<lparr>token_scores = [], draws = []\<rparr>)) = {}"
proof -
  let ?hi = "score_high rnd tlow (high_importance lt) \<lparr>token_scores = [], draws = []\<rparr>"
  let ?med = "score_medium rnd tlow (medium_importance lt) ?hi"
  have "in_step \<lparr>token_scores = [], draws = []\<rparr>"
    by (simp add: in_step_def)
  then have hi: "in_step ?hi"
    by (rule score_high_in_step)
  obtain l1 where l1: "draws ?med = draws ?hi @ l1" "distinct l1" "set l1 \<inter> set (draws ?hi) = {}"
    "in_step ?med"
    using score_unscored_draws [OF hi] unfolding score_medium_def by blast
  obtain l2 where l2: "draws (score_sexist rnd tlow (sexist_indicators lt) ?med) = draws ?med @ l2"
    "distinct l2" "set l2 \<inter> set (draws ?med) = {}"
    using score_unscored_draws [OF l1(4)] unfolding score_sexist_def by blast
  have "draws (score_keywords rnd lt tlow) = draws ?hi @ (l1 @ l2)"
    by (simp add: score_keywords_def l1(1) l2(1))
  moreover have "distinct (l1 @ l2)"
    using l1(2) l2(2,3) by (auto simp: l1(1))
  moreover have "set (l1 @ l2) \<inter> set (draws ?hi) = {}"
    using l1(3) l2(3) by (auto simp: l1(1))
  ultimately show ?thesis
    by blast
qed

text \<open>
  Claim C5, amended. In every call with a supported language, the loops over
  \<open>medium_importance\<close> and \<open>sexist_indicators\<close> draw a score only for a token that has
  none yet: the tokens they draw for are pairwise different and different from every
  token scored by the loop over \<open>high_importance\<close>. The keys of \<open>token_scores\<close> are
  pairwise different, and the returned list has no duplicate.
\<close>

theorem scored_tokens_not_rescored:
  "important_tokens lang = Some lt \<Longrightarrow>
   (\<exists>later. draws (score_keywords rnd lt (lower text)) =
        draws (score_high rnd (lower text) (high_importance lt) \<lparr>token_scores = [], draws = []\<rparr>)
          @ later \<and>
      distinct later \<and>
      set later \<inter> set (draws (score_high rnd (lower text) (high_importance lt)
                                \<lparr>token_scores = [], draws = []\<rparr>)) = {}) \<and>
   distinct (map fst (token_scores (score_tokens rnd lt (lower text)))) \<and>
   (\<exists>tokens. get_important_tokens rnd text lang threshold = Inr tokens \<and> distinct tokens)"
  using score_keywords_draws [of rnd lt "lower text"]
  by (simp add: get_important_tokens_def score_tokens_distinct select_tokens_distinct)

theorem scored_tokens_not_rescored_witness:
  "important_tokens ''en'' = Some en_tokens \<and>
   (\<exists>later. draws (score_keywords (const_rng 0) en_tokens (lower ''My wife'')) =
        draws (score_high (const_rng 0) (lower ''My wife'') (high_importance en_tokens)
                 \<lparr>token_scores = [], draws = []\<rparr>) @ later \<and>
      distinct later \<and>
      set later \<inter> set (draws (score_high (const_rng 0) (lower ''My wife'')
                                (high_importance en_tokens)
                                \<lparr>token_scores = [], draws = []\<rparr>)) = {}) \<and>
   distinct (map fst (token_scores (score_tokens (const_rng 0) en_tokens (lower ''My wife'')))) \<and>
   (\<exists>tokens. get_important_tokens (const_rng 0) ''My wife'' ''en'' (95/100) = Inr tokens \<and>
      distinct tokens)"
  using table_en scored_tokens_not_rescored [OF table_en, of "const_rng 0" "''My wife''" "95/100"]
  by simp

section \<open>High-importance keywords and the cap\<close>

text \<open>
  Claim C3 says that every keyword of \<open>high_importance\<close> that occurs in the lowercased
  text is returned under the default threshold. The loop stops at 10 tokens: in the text
  below thirteen keywords of the list occur, all with the score 0.8 when every sample is
  0, and \<open>stitute\<close> is the eleventh in the order of the sort.
\<close>

theorem high_keyword_cut_by_cap:
  "valid_rng (const_rng 0) \<and>
   ''stitute'' \<in> set (high_importance en_tokens) \<and>
   contains (lower ''slut women girls fem wife scholar woman onde ches teaching stitute'')
     ''stitute'' \<and>
   get_important_tokens (const_rng 0)
     ''slut women girls fem wife scholar woman onde ches teaching stitute'' ''en'' (95/100) =
     Inr [''slut'', ''women'', ''girls'', ''fem'', ''wife'', ''scholar'', ''woman'', ''onde'',
          ''ches'', ''teaching''] \<and>
   ''stitute'' \<notin> set [''slut'', ''women'', ''girls'', ''fem'', ''wife'', ''scholar'', ''woman'',
          ''onde'', ''ches'', ''teaching'']"
proof -
  have "get_important_tokens (const_rng 0)
     ''slut women girls fem wife scholar woman onde ches teaching stitute'' ''en'' (95/100) =
     Inr [''slut'', ''women'', ''girls'', ''fem'', ''wife'', ''scholar'', ''woman'', ''onde'',
          ''ches'', ''teaching'']"
    by code_simp
  moreover have "contains (lower ''slut women girls fem wife scholar woman onde ches teaching stitute'')
     ''stitute''"
    by code_simp
  ultimately show ?thesis
    by (simp add: valid_const_rng en_tokens_def)
qed

lemma assign_in_range:
  assumes "valid_rng rnd" "0 \<le> lo" "lo \<le> hi" "hi \<le> 1" "token \<in> H \<longrightarrow> 8/10 \<le> lo"
    and "scores_in_range H st"
  shows "scores_in_range H (assign rnd lo hi token st)"
proof -
  let ?v = "uniform rnd (length (draws st)) lo hi"
  have v: "lo \<le> ?v \<and> ?v \<le> hi"
    using uniform_bounds [OF assms(1,3)] by blast
  have "set (token_scores (assign rnd lo hi token st)) \<subseteq> insert (token, ?v) (set (token_scores st))"
    by (simp add: assign_def dict_set_subset)
  moreover have "0 \<le> ?v \<and> ?v \<le> 1 \<and> (token \<in> H \<longrightarrow> 8/10 \<le> ?v)"
    using v assms(2,4,5) by auto
  ultimately show ?thesis
    using assms(6) unfolding scores_in_range_def by blast
qed

lemma score_high_in_range:
  "valid_rng rnd \<Longrightarrow> scores_in_range H st \<Longrightarrow>
   scores_in_range H (score_high rnd tlow tokens st)"
  unfolding score_high_def
  by (induction tokens arbitrary: st) (auto simp: assign_in_range)

lemma score_unscored_in_range:
  assumes "valid_rng rnd" "0 \<le> lo" "lo \<le> hi" "hi \<le> 1"
  shows "scores_in_range H st \<Longrightarrow> \<forall>t \<in> H. contains tlow t \<longrightarrow> has_key t st \<Longrightarrow>
         scores_in_range H (score_unscored rnd lo hi tlow tokens st)"
proof (induction tokens arbitrary: st)
  case Nil
  then show ?case
    by (simp add: score_unscored_def)
next
  case (Cons token tokens)
  show ?case
  proof (cases "contains tlow token \<and> \<not> has_key token st")
    case True
    then have "token \<notin> H"
      using Cons.prems(2) by blast
    then have "scores_in_range H (assign rnd lo hi token st)"
      using assign_in_range [OF assms, of token H st] Cons.prems(1) by simp
    moreover have "\<forall>t \<in> H. contains tlow t \<longrightarrow> has_key t (assign rnd lo hi token st)"
      using Cons.prems(2) by (auto simp: has_key_def assign_keys)
    ultimately have "scores_in_range H (score_unscored rnd lo hi tlow tokens (assign rnd lo hi token st))"
      by (rule Cons.IH)
    then show ?thesis
      using True by (simp add: score_unscored_def)
  next
    case False
    then have "score_unscored rnd lo hi tlow (token # tokens) st =
        score_unscored rnd lo hi tlow tokens st"
      by (auto simp: score_unscored_def)
    then show ?thesis
      using Cons.IH [OF Cons.prems] by simp
  qed
qed

lemma score_keywords_in_range:
  assumes "valid_rng rnd"
  shows "scores_in_range (set (high_importance lt)) (score_keywords rnd lt tlow)"
proof -
  let ?H = "set (high_importance lt)"
  let ?hi = "score_high rnd tlow (high_importance lt) \<lparr>token_scores = [], draws = []\<rparr>"
  let ?med = "score_medium rnd tlow (medium_importance lt) ?hi"
  have "scores_in_range ?H \<lparr>token_scores = [], draws = []\<rparr>"
    by (simp add: scores_in_range_def)
  then have hi: "scores_in_range ?H ?hi"
    by (rule score_high_in_range [OF assms])
  have khi: "\<forall>t \<in> ?H. contains tlow t \<longrightarrow> has_key t ?hi"
    using score_high_keys [of rnd tlow "high_importance lt" "\<lparr>token_scores = [], draws = []\<rparr>"]
    by (auto simp: has_key_def)
  have med: "scores_in_range ?H ?med"
    unfolding score_medium_def
    by (rule score_unscored_in_range [OF assms _ _ _ hi khi]) auto
  have kmed: "\<forall>t \<in> ?H. contains tlow t \<longrightarrow> has_key t ?med"
    using khi by (auto simp: has_key_def score_medium_def score_unscored_keys)
  show ?thesis
    unfolding score_keywords_def score_sexist_def
    using score_unscored_in_range [OF assms _ _ _ med kmed, of "7/10" "95/100" "sexist_indicators lt"]
    by simp
qed

lemma member_le_sum:
  "\<forall>x \<in> set xs. (0::real) \<le> f x \<Longrightarrow> y \<in> set xs \<Longrightarrow> f y \<le> sum_list (map f xs)"
proof (induction xs)
  case Nil
  then show ?case by simp
next
  case (Cons x xs)
  have "0 \<le> sum_list (map f xs)"
    using Cons.prems(1) by (intro sum_list_nonneg) auto
  then show ?case
    using Cons by auto
qed

lemma sum_le_length:
  "\<forall>x \<in> set xs. f x \<le> (1::real) \<Longrightarrow> sum_list (map f xs) \<le> real (length xs)"
  by (induction xs) auto

lemma select_loop_reaches:
  "(t, s) \<in> set xs \<Longrightarrow> \<forall>x \<in> set xs. 0 \<le> snd x \<Longrightarrow> 0 < tot \<Longrightarrow>
   cum + (sum_list (map snd xs) - s) / tot < th \<Longrightarrow> length sel + length xs \<le> 10 \<Longrightarrow>
   t \<in> set (select_loop th tot cum sel xs)"
proof (induction xs arbitrary: cum sel)
  case Nil
  then show ?case by simp
next
  case (Cons x xs)
  obtain t' s' where x: "x = (t', s')"
    by (cases x)
  show ?case
  proof (cases "t' = t")
    case True
    obtain ys where "select_loop th tot cum sel ((t', s') # xs) = sel @ t' # ys"
      using select_loop_Cons by blast
    then show ?thesis
      by (simp add: x True)
  next
    case False
    then have mem: "(t, s) \<in> set xs"
      using Cons.prems(1) by (simp add: x)
    have nonneg: "\<forall>x \<in> set xs. 0 \<le> snd x" and s': "0 \<le> s'"
      using Cons.prems(2) by (simp_all add: x)
    have "snd (t, s) \<le> sum_list (map snd xs)"
      using member_le_sum [OF nonneg mem] .
    then have rest: "0 \<le> (sum_list (map snd xs) - s) / tot"
      using Cons.prems(3) by simp
    let ?cum = "cum + s' / tot"
    have eq: "?cum + (sum_list (map snd xs) - s) / tot =
        cum + (sum_list (map snd (x # xs)) - s) / tot"
      by (simp add: x add_divide_distrib diff_divide_distrib)
    then have below: "?cum + (sum_list (map snd xs) - s) / tot < th"
      using Cons.prems(4) by simp
    then have "\<not> th \<le> ?cum"
      using rest by linarith
    moreover have "xs \<noteq> []"
      using mem by auto
    then have "\<not> 10 \<le> length (sel @ [t'])"
      using Cons.prems(5) by (cases xs) auto
    ultimately have "select_loop th tot cum sel (x # xs) = select_loop th tot ?cum (sel @ [t']) xs"
      using Cons.prems(3) by (simp add: x Let_def)
    moreover have "t \<in> set (select_loop th tot ?cum (sel @ [t']) xs)"
      using Cons.prems(5) by (intro Cons.IH [OF mem nonneg Cons.prems(3) below]) simp
    ultimately show ?thesis
      by simp
  qed
qed

lemma select_tokens_reaches:
  assumes "(t, s) \<in> set items" "\<forall>x \<in> set items. 0 \<le> snd x \<and> snd x \<le> 1" "8/10 \<le> s"
    and "length items \<le> 10"
  shows "t \<in> set (select_tokens (95/100) items)"
proof -
  let ?xs = "sorted_by_score items"
  let ?tot = "sum_list (map snd ?xs)"
  have set: "set ?xs = set items" and len: "length ?xs = length items"
    by (simp_all add: sorted_by_score_def)
  have nonneg: "\<forall>x \<in> set ?xs. 0 \<le> snd x"
    using assms(2) set by simp
  have "snd (t, s) \<le> ?tot"
    using member_le_sum [OF nonneg] assms(1) set by blast
  then have tot: "0 < ?tot" "s \<le> ?tot"
    using assms(3) by simp_all
  have "?tot \<le> real (length ?xs)"
    using assms(2) set by (intro sum_le_length) simp
  then have "?tot \<le> 10"
    using assms(4) len by simp
  then have "100 * (?tot - s) < 95 * ?tot"
    using assms(3) by simp
  then have "(?tot - s) / ?tot < 95/100"
    using tot(1) by (simp add: divide_less_eq)
  then have "0 + (?tot - s) / ?tot < 95/100"
    by simp
  moreover have "(t, s) \<in> set ?xs"
    using assms(1) set by simp
  moreover have "length ([]::string list) + length ?xs \<le> 10"
    using assms(4) len by simp
  ultimately have "t \<in> set (select_loop (95/100) ?tot 0 [] ?xs)"
    using nonneg tot(1) by (intro select_loop_reaches [where s = s])
  then show ?thesis
    by (simp add: select_tokens_def Let_def)
qed

text \<open>
  Claim C3, amended. For every supported language and every text whose lowercasing
  contains a keyword of the language's \<open>high_importance\<close> list, \<open>get_important_tokens\<close>
  with the default threshold returns that keyword, provided that at most 10 tokens are
  scored in the call.
\<close>

theorem high_keyword_selected:
  assumes "important_tokens lang = Some lt"
    and "valid_rng rnd"
    and "kw \<in> set (high_importance lt)"
    and "contains (lower text) kw"
    and "length (token_scores (score_tokens rnd lt (lower text))) \<le> 10"
  shows "\<exists>tokens. get_important_tokens rnd text lang (95/100) = Inr tokens \<and> kw \<in> set tokens"
proof -
  let ?kw = "score_keywords rnd lt (lower text)"
  have "kw \<in> fst ` set (token_scores ?kw)"
    using assms(3,4) by (simp add: score_keywords_keys)
  then obtain s where s: "(kw, s) \<in> set (token_scores ?kw)"
    by auto
  then have "token_scores ?kw \<noteq> []"
    by auto
  then have same: "score_tokens rnd lt (lower text) = ?kw"
    by (simp add: score_tokens_def score_fallback_def)
  have range: "scores_in_range (set (high_importance lt)) ?kw"
    by (rule score_keywords_in_range [OF assms(2)])
  then have "8/10 \<le> s"
    using s assms(3) unfolding scores_in_range_def by blast
  moreover have "\<forall>x \<in> set (token_scores ?kw). 0 \<le> snd x \<and> snd x \<le> 1"
    using range unfolding scores_in_range_def by auto
  ultimately have "kw \<in> set (select_tokens (95/100) (token_scores ?kw))"
    using s assms(5) same by (intro select_tokens_reaches [where s = s]) simp_all
  then show ?thesis
    by (simp add: get_important_tokens_def assms(1) same)
qed

theorem high_keyword_selected_witness:
  "important_tokens ''en'' = Some en_tokens \<and> valid_rng (const_rng 0) \<and>
   ''women'' \<in> set (high_importance en_tokens) \<and> contains (lower ''WOMEN'') ''women'' \<and>
   length (token_scores (score_tokens (const_rng 0) en_tokens (lower ''WOMEN''))) \<le> 10 \<and>
   (\<exists>tokens. get_important_tokens (const_rng 0) ''WOMEN'' ''en'' (95/100) = Inr tokens \<and>
      ''women'' \<in> set tokens)"
proof -
  have v: "valid_rng (const_rng 0)"
    by (simp add: valid_const_rng)
  have k: "''women'' \<in> set (high_importance en_tokens)"
    by (simp add: en_tokens_def)
  have c: "contains (lower ''WOMEN'') ''women''"
    by code_simp
  have l: "length (token_scores (score_tokens (const_rng 0) en_tokens (lower ''WOMEN''))) \<le> 10"
    by code_simp
  show ?thesis
    using table_en v k c l high_keyword_selected [OF table_en v k c l]
    by simp
qed

section \<open>Properties of highlighting\<close>

subsection \<open>Replacement templates without a backslash\<close>

lemma emit_Some: "emit i (Some r) = Some (i # r)"
  by (simp add: emit_def)

lemma parse_template_plain: "CHR 0x5C \<notin> set s \<Longrightarrow> parse_template s = Some (map Lit s)"
  by (induction s) (auto simp: emit_Some)

lemma expand_Lit: "expand (map Lit s) m = s"
  by (induction s) simp_all

subsection \<open>Casing\<close>

text \<open>
  Claim C2 says that highlighting keeps the casing of the occurrence it wraps. The
  replacement is built from the token, not from the matched text: the occurrence
  \<open>Kitchen\<close> comes out as the token \<open>kitchen\<close> between the markers.
\<close>

theorem highlight_changes_casing:
  "highlight_tokens ''In the Kitchen'' [''kitchen''] = Inr ''In the **kitchen**'' \<and>
   ''In the **kitchen**'' \<noteq> ''In the **Kitchen**''"
  by code_simp

lemma is_word_lower_char: "is_word (lower_char c) = is_word c"
  by (auto simp: is_word_def is_upper_def lower_char_def code_point_def Let_def)

lemma backslash_not_word: "\<not> is_word (CHR 0x5C)"
  by (simp add: is_word_def code_point_def)

lemma lower_eq_word:
  assumes "lower m = lower t" "list_all is_word t"
  shows "list_all is_word m"
proof -
  have "list_all is_word (lower t)"
    using assms(2) by (simp add: lower_def list_all_iff is_word_lower_char)
  then have "list_all is_word (lower m)"
    using assms(1) by simp
  then show ?thesis
    by (simp add: lower_def list_all_iff is_word_lower_char)
qed

lemma lower_eq_length: "lower m = lower t \<Longrightarrow> length m = length t"
  unfolding lower_def by (rule map_eq_imp_length_eq)

lemma no_match_inside:
  assumes "word_token t"
  shows "\<not> match_here t True s"
proof
  assume m: "match_here t True s"
  obtain a t' where t: "t = a # t'" and a: "is_word a"
    using assms by (cases t) (auto simp: word_token_def)
  from m have len: "length t \<le> length s" and low: "lower (take (length t) s) = lower t"
    and b: "at_boundary True s"
    by (simp_all add: match_here_def Let_def)
  obtain c cs where s: "s = c # cs"
    using len t by (cases s) auto
  have "\<not> is_word c"
    using b by (simp add: s at_boundary_def)
  moreover have "lower_char c = lower_char a"
    using low by (simp add: s t lower_def)
  ultimately show False
    using a is_word_lower_char by metis
qed

lemma re_sub_inside_Nil: "word_token t \<Longrightarrow> re_sub t R True [] = []"
  by (subst re_sub.simps) (simp add: no_match_inside)

lemma re_sub_inside_Cons: "word_token t \<Longrightarrow> re_sub t R True (c # cs) = c # re_sub t R (is_word c) cs"
  by (subst re_sub.simps) (simp add: no_match_inside)

lemma re_sub_inside_run:
  "word_token t \<Longrightarrow> list_all is_word w \<Longrightarrow> re_sub t R True (w @ rest) = w @ re_sub t R True rest"
  by (induction w) (simp_all add: re_sub_inside_Cons)

lemma re_sub_outside_Nil: "re_sub t R False [] = []"
  by (subst re_sub.simps) (simp add: match_here_def at_boundary_def)

lemma re_sub_outside_Cons:
  "\<not> is_word c \<Longrightarrow> re_sub t R False (c # cs) = c # re_sub t R False cs"
  by (subst re_sub.simps) (simp add: match_here_def at_boundary_def)

lemma match_whole_run:
  assumes "word_token t" "w \<noteq> []" "list_all is_word w" "rest = [] \<or> \<not> is_word (hd rest)"
  shows "match_here t False (w @ rest) = (lower w = lower t)"
proof
  assume eq: "lower w = lower t"
  then have len: "length w = length t"
    by (rule lower_eq_length)
  have "at_boundary False (w @ rest)"
    using assms(2,3) by (cases w) (auto simp: at_boundary_def)
  moreover have "at_boundary (ends_word False w) rest"
    using assms(2,3,4) by (cases rest) (auto simp: at_boundary_def ends_word_def list_all_iff)
  ultimately show "match_here t False (w @ rest)"
    using eq len by (simp add: match_here_def Let_def)
next
  let ?n = "length t"
  let ?m = "take ?n (w @ rest)"
  assume m: "match_here t False (w @ rest)"
  then have len: "?n \<le> length (w @ rest)" and low: "lower ?m = lower t"
    and b: "at_boundary (ends_word False ?m) (drop ?n (w @ rest))"
    by (simp_all add: match_here_def Let_def)
  have mw: "list_all is_word ?m"
    using lower_eq_word [OF low] assms(1) by (simp add: word_token_def)
  have mlen: "length ?m = ?n"
    using len by simp
  have "?m \<noteq> []"
    using assms(1) mlen by (auto simp: word_token_def)
  then have "last ?m \<in> set ?m"
    by (rule last_in_set)
  then have "is_word (last ?m)"
    using mw unfolding list_all_iff by blast
  then have after: "drop ?n (w @ rest) = [] \<or> \<not> is_word (hd (drop ?n (w @ rest)))"
    using b \<open>?m \<noteq> []\<close> by (cases "drop ?n (w @ rest)") (auto simp: at_boundary_def ends_word_def)
  have "\<not> ?n < length w"
  proof
    assume less: "?n < length w"
    then have "drop ?n (w @ rest) = w ! ?n # drop (Suc ?n) w @ rest"
      by (simp add: Cons_nth_drop_Suc)
    moreover have "is_word (w ! ?n)"
      using less assms(3) by (simp add: list_all_length)
    ultimately show False
      using after by simp
  qed
  moreover have "\<not> length w < ?n"
  proof
    assume less: "length w < ?n"
    then have "rest \<noteq> []"
      using len by auto
    then have "\<not> is_word (hd rest)"
      using assms(4) by simp
    moreover have "?m ! length w = hd rest"
      using less \<open>rest \<noteq> []\<close> by (simp add: nth_append hd_conv_nth)
    moreover have "is_word (?m ! length w)"
      using mw less mlen by (simp add: list_all_length del: length_take)
    ultimately show False
      by simp
  qed
  ultimately have "?n = length w"
    by simp
  then show "lower w = lower t"
    using low by simp
qed

lemma re_sub_outside_run:
  assumes "word_token t" "w \<noteq> []" "list_all is_word w" "rest = [] \<or> \<not> is_word (hd rest)"
    and R: "\<And>m. expand R m = ''**'' @ t @ ''**''"
  shows "re_sub t R False (w @ rest) = spec_mark_run t w @ re_sub t R True rest"
proof (cases "lower w = lower t")
  case True
  then have m: "match_here t False (w @ rest)"
    using match_whole_run [OF assms(1-4)] by simp
  have len: "length w = length t"
    using True by (rule lower_eq_length)
  have "is_word (last w)"
    using assms(2,3) by (simp add: list_all_iff)
  moreover have "t \<noteq> []"
    using assms(1) by (simp add: word_token_def)
  ultimately show ?thesis
    using m len True by (subst re_sub.simps) (simp add: R spec_mark_run_def)
next
  case False
  then have m: "\<not> match_here t False (w @ rest)"
    using match_whole_run [OF assms(1-4)] by simp
  obtain c w' where w: "w = c # w'"
    using assms(2) by (cases w) auto
  have "re_sub t R False (w @ rest) = c # re_sub t R (is_word c) (w' @ rest)"
    using m by (subst re_sub.simps) (simp add: w)
  also have "\<dots> = c # w' @ re_sub t R True rest"
    using assms(1,3) by (simp add: w re_sub_inside_run)
  finally show ?thesis
    using False by (simp add: w spec_mark_run_def)
qed

lemma mark_run_nonword:
  assumes "word_token t" "\<not> is_word c"
  shows "spec_mark_run t [c] = [c]"
proof -
  have "lower [c] \<noteq> lower t"
  proof
    assume "lower [c] = lower t"
    then have "list_all is_word [c]"
      using assms(1) by (intro lower_eq_word [of "[c]" t]) (simp_all add: word_token_def)
    then show False
      using assms(2) by simp
  qed
  then show ?thesis
    by (simp add: spec_mark_run_def)
qed

lemma re_sub_word_runs:
  assumes "word_token t" and R: "\<And>m. expand R m = ''**'' @ t @ ''**''"
  shows "list_all is_word w \<Longrightarrow>
         re_sub t R False (w @ s) = concat (map (spec_mark_run t) (spec_word_runs w s))"
proof (induction s arbitrary: w)
  case Nil
  show ?case
  proof (cases "w = []")
    case True
    then show ?thesis
      by (simp add: re_sub_outside_Nil)
  next
    case False
    then show ?thesis
      using re_sub_outside_run [OF assms(1) False Nil, of "[]" R] R
      by (simp add: re_sub_inside_Nil [OF assms(1)])
  qed
next
  case (Cons c cs)
  show ?case
  proof (cases "is_word c")
    case True
    then have "list_all is_word (w @ [c])"
      using Cons.prems by simp
    then show ?thesis
      using Cons.IH [of "w @ [c]"] True by simp
  next
    case False
    have tail: "re_sub t R False cs = concat (map (spec_mark_run t) (spec_word_runs [] cs))"
      using Cons.IH [of "[]"] by simp
    show ?thesis
    proof (cases "w = []")
      case True
      then show ?thesis
        using False tail by (simp add: re_sub_outside_Cons mark_run_nonword [OF assms(1)])
    next
      case nonempty: False
      have "re_sub t R False (w @ c # cs) = spec_mark_run t w @ re_sub t R True (c # cs)"
        using re_sub_outside_run [OF assms(1) nonempty Cons.prems, of "c # cs" R] R False
        by simp
      then show ?thesis
        using False nonempty tail
        by (simp add: re_sub_inside_Cons [OF assms(1)] mark_run_nonword [OF assms(1)])
    qed
  qed
qed

lemma highlight_loop_marks:
  "\<forall>t \<in> set ts. word_token t \<Longrightarrow> highlight_loop s ts = Inr (fold spec_mark_token ts s)"
proof (induction ts arbitrary: s)
  case Nil
  then show ?case by simp
next
  case (Cons t ts)
  then have wt: "word_token t"
    by simp
  then have "CHR 0x5C \<notin> set t"
    using backslash_not_word by (auto simp: word_token_def list_all_iff)
  then have p: "parse_template (''**'' @ t @ ''**'') = Some (map Lit (''**'' @ t @ ''**''))"
    by (intro parse_template_plain) simp
  have "\<And>m. expand (map Lit (''**'' @ t @ ''**'')) m = ''**'' @ t @ ''**''"
    by (rule expand_Lit)
  then have "re_sub t (map Lit (''**'' @ t @ ''**'')) False ([] @ s) =
      concat (map (spec_mark_run t) (spec_word_runs [] s))"
    by (intro re_sub_word_runs [OF wt]) simp_all
  then have sub: "re_sub t (map Lit (''**'' @ t @ ''**'')) False s = spec_mark_token t s"
    by (simp only: append_Nil spec_mark_token_def)
  have "highlight_loop s (t # ts) = highlight_loop (spec_mark_token t s) ts"
    by (simp only: highlight_loop.simps p option.case sub)
  also have "\<dots> = Inr (fold spec_mark_token ts (spec_mark_token t s))"
    using Cons by simp
  finally show ?case
    by simp
qed

text \<open>
  Claim C2, amended. For every text and every list of tokens that are not empty and made
  of word characters, \<open>highlight_tokens\<close> goes through the tokens longest first and, for
  each, replaces every maximal run of word characters of the current text that equals
  the token up to case by the token itself, spelled as in the token list, between the
  markers \<open>**\<close>; the casing of the occurrence is not kept. Nothing else changes.
\<close>

theorem highlight_marks_words:
  "\<forall>t \<in> set tokens. word_token t \<Longrightarrow>
   highlight_tokens text tokens = Inr (fold spec_mark_token (sorted_by_length tokens) text)"
  unfolding highlight_tokens_def
  by (rule highlight_loop_marks) (simp add: sorted_by_length_def)

theorem highlight_marks_words_witness:
  "word_token ''kitchen'' \<and>
   highlight_tokens ''In the Kitchen, KITCHEN kitchens'' [''kitchen''] =
     Inr ''In the **kitchen**, **kitchen** kitchens'' \<and>
   fold spec_mark_token (sorted_by_length [''kitchen'']) ''In the Kitchen, KITCHEN kitchens'' =
     ''In the **kitchen**, **kitchen** kitchens''"
proof -
  have w: "word_token ''kitchen''"
    by code_simp
  then have h: "\<forall>t \<in> set [''kitchen'']. word_token t"
    by simp
  have m: "fold spec_mark_token (sorted_by_length [''kitchen'']) ''In the Kitchen, KITCHEN kitchens'' =
     ''In the **kitchen**, **kitchen** kitchens''"
    by code_simp
  show ?thesis
    using w m highlight_marks_words [OF h, of "''In the Kitchen, KITCHEN kitchens''"]
    by simp
qed

subsection \<open>Length\<close>

text \<open>
  Claim C7: for every text and every token list the highlighted text is at least as long
  as the text. The code breaks it for a token with backslashes. The token is escaped for
  the pattern but not for the replacement, which \<open>re.sub\<close> reads as a template: ten
  backslashes in the token stand for five in the replacement. The text below has 12
  characters, the letter \<open>a\<close>, ten backslashes and the letter \<open>b\<close>; what
  \<open>highlight_tokens\<close> returns for it has 11.
\<close>

theorem highlight_shrinks_text:
  "highlight_tokens (''a'' @ replicate 10 (CHR 0x5C) @ ''b'') [replicate 10 (CHR 0x5C)] =
     Inr (''a**'' @ replicate 5 (CHR 0x5C) @ ''**b'') \<and>
   length (''a**'' @ replicate 5 (CHR 0x5C) @ ''**b'') = 11 \<and>
   length (''a'' @ replicate 10 (CHR 0x5C) @ ''b'') = 12"
  by code_simp

text \<open>
  An escape that \<open>re\<close> does not know makes the call fail instead.
\<close>

lemma highlight_template_error:
  "highlight_tokens (''see '' @ [CHR 0x5C, CHR ''d'']) [[CHR 0x5C, CHR ''d'']] = Inl ReError"
  by code_simp

text \<open>
  For tokens without a backslash, as \<open>get_important_tokens\<close> returns them, the call
  succeeds and the text never shrinks.
\<close>

lemma re_sub_length:
  "\<forall>m. length t \<le> length (expand R m) \<Longrightarrow> length s \<le> length (re_sub t R pw s)"
proof (induction t R pw s rule: re_sub.induct)
  case (1 token repl prev_word s)
  note R = "1.prems"
  show ?case
  proof (cases "match_here token prev_word s")
    case m: True
    show ?thesis
    proof (cases "token = []")
      case True
      show ?thesis
      proof (cases s)
        case Nil
        then show ?thesis by simp
      next
        case (Cons c cs)
        then have "length cs \<le> length (re_sub token repl (is_word c) cs)"
          using "1.IH"(1) [OF m True Cons R] by simp
        then show ?thesis
          using m True Cons by (subst re_sub.simps) simp
      qed
    next
      case False
      let ?n = "length token"
      have n: "?n \<le> length s"
        using m by (simp add: match_here_def Let_def)
      have "length (drop ?n s) \<le>
          length (re_sub token repl (is_word (last (take ?n s))) (drop ?n s))"
        using "1.IH"(2) [OF m False R] by simp
      moreover have "?n \<le> length (expand repl (take ?n s))"
        using R by simp
      ultimately show ?thesis
        using m False n by (subst re_sub.simps) simp
    qed
  next
    case False
    show ?thesis
    proof (cases s)
      case Nil
      then show ?thesis by simp
    next
      case (Cons c cs)
      then have "length cs \<le> length (re_sub token repl (is_word c) cs)"
        using "1.IH"(3) [OF False Cons R] by simp
      then show ?thesis
        using False Cons by (subst re_sub.simps) simp
    qed
  qed
qed

lemma highlight_loop_length:
  "\<forall>t \<in> set ts. CHR 0x5C \<notin> set t \<Longrightarrow>
   \<exists>h. highlight_loop s ts = Inr h \<and> length s \<le> length h"
proof (induction ts arbitrary: s)
  case Nil
  then show ?case by simp
next
  case (Cons t ts)
  let ?r = "''**'' @ t @ ''**''"
  have "CHR 0x5C \<notin> set ?r"
    using Cons.prems by simp
  then have p: "parse_template ?r = Some (map Lit ?r)"
    by (rule parse_template_plain)
  have "\<forall>m. length t \<le> length (expand (map Lit ?r) m)"
    by (simp only: expand_Lit) simp
  then have le: "length s \<le> length (re_sub t (map Lit ?r) False s)"
    by (rule re_sub_length)
  obtain h where h: "highlight_loop (re_sub t (map Lit ?r) False s) ts = Inr h"
    "length (re_sub t (map Lit ?r) False s) \<le> length h"
    using Cons.IH [of "re_sub t (map Lit ?r) False s"] Cons.prems by auto
  have "highlight_loop s (t # ts) = highlight_loop (re_sub t (map Lit ?r) False s) ts"
    by (simp only: highlight_loop.simps p option.case)
  then show ?case
    using h le by auto
qed

lemma highlight_tokens_length:
  "\<forall>t \<in> set tokens. CHR 0x5C \<notin> set t \<Longrightarrow>
   \<exists>h. highlight_tokens s tokens = Inr h \<and> length s \<le> length h"
  unfolding highlight_tokens_def
  by (rule highlight_loop_length) (simp add: sorted_by_length_def)

end
